theory Spec2Isabelle
  imports Main
begin

section \<open>The sorted-index search of the documentation corpus\<close>

text \<open>
  The two JavaScript functions of the corpus:
  \<^verbatim>\<open>
  function sortedIndex(array, value, _range) {
    const [low, high] = _range ?? [0, array.length];
    if (low === high) {
      return low;
    }
    const midPoint = low + Math.floor((high - low) / 2);
    const newRange = value <= array[midPoint]
      ? [low, midPoint]
      : [midPoint + 1, high];
    return sortedIndex(array, value, newRange);
  }

  function sortedIndexOf(array, value) {
    const index = sortedIndex(array, value);
    return array[index] === value ? index : -1;
  }
  \<close>
  An array is a list over a linearly ordered element type, indices and range bounds are
  unbounded integers, and the optional third argument is an optional pair of bounds. The
  value that is searched for is an element or \<^verbatim>\<open>undefined\<close> (\<open>None\<close>): the functions
  accept it, and \<^verbatim>\<open>sortedIndexOf\<close> compares it with the result of a read that can be
  \<^verbatim>\<open>undefined\<close>.
\<close>

subsection \<open>Reading an array\<close>

text \<open>
  \<^verbatim>\<open>array[i]\<close>: reading outside \<open>0 .. length - 1\<close> yields \<^verbatim>\<open>undefined\<close> in
  JavaScript, here \<open>None\<close>.
\<close>

definition at_index :: "'a list \<Rightarrow> int \<Rightarrow> 'a option" where
  "at_index array i =
     (if 0 \<le> i \<and> i < int (length array) then Some (array ! nat i) else None)"

text \<open>
  \<^verbatim>\<open>value <= array[midPoint]\<close>: a comparison in which either side is \<^verbatim>\<open>undefined\<close> is
  false.
\<close>

definition le_elem :: "'a::linorder option \<Rightarrow> 'a option \<Rightarrow> bool" where
  "le_elem v e = (case (v, e) of (Some x, Some y) \<Rightarrow> x \<le> y | _ \<Rightarrow> False)"

subsection \<open>sortedIndex and sortedIndexOf\<close>

text \<open>
  \<^verbatim>\<open>low + Math.floor((high - low) / 2)\<close>; \<open>div\<close> on \<open>int\<close> rounds towards minus
  infinity, as \<^verbatim>\<open>Math.floor\<close> does.
\<close>

definition midPoint :: "int \<Rightarrow> int \<Rightarrow> int" where
  "midPoint low high = low + (high - low) div 2"

definition newRange :: "'a::linorder list \<Rightarrow> 'a option \<Rightarrow> int \<Rightarrow> int \<Rightarrow> int \<times> int" where
  "newRange array v low high =
     (if le_elem v (at_index array (midPoint low high))
      then (low, midPoint low high)
      else (midPoint low high + 1, high))"

text \<open>
  The recursion does not end for every range (it never does when \<open>high < low\<close>), so the
  function is partial: \<open>None\<close> stands for a call that does not return.
\<close>

partial_function (option) sortedIndex ::
  "'a::linorder list \<Rightarrow> 'a option \<Rightarrow> (int \<times> int) option \<Rightarrow> int option" where
  "sortedIndex array v rng =
     (case (case rng of None \<Rightarrow> (0, int (length array)) | Some r \<Rightarrow> r) of
        (low, high) \<Rightarrow>
          if low = high then Some low
          else sortedIndex array v (Some (newRange array v low high)))"

declare sortedIndex.simps [code]

text \<open>
  \<^verbatim>\<open>array[index] === value\<close>: the read is \<^verbatim>\<open>undefined\<close> when \<open>index\<close> is the length of
  the array, and \<^verbatim>\<open>undefined === undefined\<close> is true.
\<close>

definition sortedIndexOf :: "'a::linorder list \<Rightarrow> 'a option \<Rightarrow> int option" where
  "sortedIndexOf array v =
     (case sortedIndex array v None of
        None \<Rightarrow> None
      | Some index \<Rightarrow> Some (if at_index array index = v then index else - 1))"

subsection \<open>Notions used to state the results\<close>

text \<open>Every element at a position before \<open>i\<close> is strictly less than \<open>v\<close>.\<close>

definition less_before :: "'a::linorder list \<Rightarrow> 'a \<Rightarrow> int \<Rightarrow> bool" where
  "less_before array v i = (\<forall>j<length array. int j < i \<longrightarrow> array ! j < v)"

text \<open>Every element at position \<open>i\<close> or after is greater than or equal to \<open>v\<close>.\<close>

definition ge_from :: "'a::linorder list \<Rightarrow> 'a \<Rightarrow> int \<Rightarrow> bool" where
  "ge_from array v i = (\<forall>j<length array. i \<le> int j \<longrightarrow> v \<le> array ! j)"

subsection \<open>The recursion with a bound on the number of invocations\<close>

text \<open>
  The same function with a budget: \<open>sortedIndex_fuel n\<close> performs at most \<open>n\<close>
  invocations of \<^verbatim>\<open>sortedIndex\<close>, the top-level one included, and yields \<open>None\<close> when
  they do not suffice. It serves to count the invocations.
\<close>

fun sortedIndex_fuel ::
  "nat \<Rightarrow> 'a::linorder list \<Rightarrow> 'a option \<Rightarrow> (int \<times> int) option \<Rightarrow> int option" where
  "sortedIndex_fuel 0 array v rng = None"
| "sortedIndex_fuel (Suc n) array v rng =
     (case (case rng of None \<Rightarrow> (0, int (length array)) | Some r \<Rightarrow> r) of
        (low, high) \<Rightarrow>
          if low = high then Some low
          else sortedIndex_fuel n array v (Some (newRange array v low high)))"

subsection \<open>The ranges of the invocations of a top-level call\<close>

text \<open>
  \<open>invoked array v (low, high)\<close>: the call \<^verbatim>\<open>sortedIndex(array, value)\<close> leads to an
  invocation whose range is \<open>[low, high]\<close>. The top-level invocation has the range
  \<open>[0, array.length]\<close>; an invocation with \<open>low \<noteq> high\<close> makes the recursive one.
\<close>

inductive invoked :: "'a::linorder list \<Rightarrow> 'a option \<Rightarrow> int \<times> int \<Rightarrow> bool"
  for array :: "'a list" and v :: "'a option" where
  top: "invoked array v (0, int (length array))"
| recursive: "invoked array v (low, high) \<Longrightarrow> low \<noteq> high \<Longrightarrow>
     invoked array v (newRange array v low high)"

subsection \<open>The two functions over an explicit store\<close>

text \<open>
  To state what a call does to the objects of the program, the arrays live in a store: a
  reference is a position of the store, and an array literal allocates a new object at its
  end. Here the arrays hold integers, and a JavaScript value is a number or \<^verbatim>\<open>undefined\<close>
  (\<open>None\<close>). The function receives the reference of the array and, optionally, the
  reference of the range; both array literals of its body, \<^verbatim>\<open>[0, array.length]\<close> and the
  new range, are allocations. A reference always denotes an object in JavaScript, so the
  model gives no result for one that is outside the store.

  When one bound is \<^verbatim>\<open>undefined\<close> and the other is not, the midpoint is \<^verbatim>\<open>NaN\<close>, the
  lower bound of every later range is \<^verbatim>\<open>NaN\<close>, which is equal to nothing, and the
  recursion never returns: the result is \<open>None\<close>.
\<close>

type_synonym store = "int list list"

definition alloc :: "store \<Rightarrow> int list \<Rightarrow> nat \<times> store" where
  "alloc s a = (length s, s @ [a])"

definition deref :: "store \<Rightarrow> nat \<Rightarrow> int list option" where
  "deref s r = (if r < length s then Some (s ! r) else None)"

text \<open>\<^verbatim>\<open>array[index]\<close> where \<open>index\<close> may be \<^verbatim>\<open>undefined\<close>.\<close>

definition read_elem :: "int list \<Rightarrow> int option \<Rightarrow> int option" where
  "read_elem a index = (case index of None \<Rightarrow> None | Some i \<Rightarrow> at_index a i)"

partial_function (option) sortedIndex_st ::
  "store \<Rightarrow> nat \<Rightarrow> int option \<Rightarrow> nat option \<Rightarrow> (int option \<times> store) option" where
  "sortedIndex_st s array v rng =
     (case (case rng of
              None \<Rightarrow>
                (case deref s array of
                   None \<Rightarrow> None
                 | Some elems \<Rightarrow> Some (alloc s [0, int (length elems)]))
            | Some r \<Rightarrow> Some (r, s)) of
        None \<Rightarrow> None
      | Some (r, s1) \<Rightarrow>
          (case deref s1 r of
             None \<Rightarrow> None
           | Some bounds \<Rightarrow>
               (case (at_index bounds 0, at_index bounds 1) of
                  (low, high) \<Rightarrow>
                    if low = high then Some (low, s1)
                    else
                      (case (low, high) of
                         (Some l, Some h) \<Rightarrow>
                           (case deref s1 array of
                              None \<Rightarrow> None
                            | Some elems \<Rightarrow>
                                (case alloc s1 (case newRange elems v l h of (l', h') \<Rightarrow> [l', h']) of
                                   (r', s2) \<Rightarrow> sortedIndex_st s2 array v (Some r')))
                       | _ \<Rightarrow> None))))"

declare sortedIndex_st.simps [code]

definition sortedIndexOf_st ::
  "store \<Rightarrow> nat \<Rightarrow> int option \<Rightarrow> (int option \<times> store) option" where
  "sortedIndexOf_st s array v =
     (case sortedIndex_st s array v None of
        None \<Rightarrow> None
      | Some (index, s1) \<Rightarrow>
          (case deref s1 array of
             None \<Rightarrow> None
           | Some elems \<Rightarrow>
               Some (if read_elem elems index = v then index else Some (- 1), s1)))"

section \<open>Unfolding the recursion\<close>

lemma midPoint_bounds:
  "low < high \<Longrightarrow> low \<le> midPoint low high \<and> midPoint low high < high"
  unfolding midPoint_def by linarith

lemma at_index_inside:
  "0 \<le> i \<Longrightarrow> i < int (length array) \<Longrightarrow> at_index array i = Some (array ! nat i)"
  by (simp add: at_index_def)

lemma sortedIndex_top:
  "sortedIndex array v None = sortedIndex array v (Some (0, int (length array)))"
  by (subst sortedIndex.simps, subst (2) sortedIndex.simps) simp

lemma sortedIndex_done:
  "sortedIndex array v (Some (low, low)) = Some low"
  by (subst sortedIndex.simps) simp

lemma sortedIndex_step:
  "low \<noteq> high \<Longrightarrow>
   sortedIndex array v (Some (low, high)) =
   sortedIndex array v (Some (newRange array v low high))"
  by (subst sortedIndex.simps) simp

lemma newRange_shrinks:
  assumes "low < high" and "newRange array v low high = (l', h')"
  shows "low \<le> l' \<and> l' \<le> h' \<and> h' \<le> high \<and> h' - l' \<le> (high - low) div 2"
  using assms unfolding newRange_def midPoint_def
  by (auto split: if_splits)

section \<open>Every call on a range with low \<le> high returns\<close>

lemma sortedIndex_total:
  "low \<le> high \<Longrightarrow>
   \<exists>i. sortedIndex array v (Some (low, high)) = Some i \<and> low \<le> i \<and> i \<le> high"
proof (induction "nat (high - low)" arbitrary: low high rule: less_induct)
  case less
  show ?case
  proof (cases "low = high")
    case True
    then show ?thesis by (simp add: sortedIndex_done)
  next
    case False
    with less.prems have lt: "low < high" by simp
    obtain l' h' where nr: "newRange array v low high = (l', h')"
      by (cases "newRange array v low high")
    from newRange_shrinks [OF lt nr]
    have b: "low \<le> l'" "l' \<le> h'" "h' \<le> high" "h' - l' \<le> (high - low) div 2"
      by simp_all
    from b lt have "nat (h' - l') < nat (high - low)" by linarith
    from less.hyps [OF this b(2)]
    obtain i where "sortedIndex array v (Some (l', h')) = Some i" "l' \<le> i" "i \<le> h'"
      by blast
    with b show ?thesis
      using sortedIndex_step [OF False, of array v] nr by auto
  qed
qed

lemma sortedIndex_in_range:
  "\<exists>i. sortedIndex array v None = Some i \<and> 0 \<le> i \<and> i \<le> int (length array)"
  using sortedIndex_total [of 0 "int (length array)" array v]
  by (simp add: sortedIndex_top)

section \<open>A call on a range with high < low never returns\<close>

lemma newRange_inverted:
  assumes "high < low" and "newRange array v low high = (l', h')"
  shows "h' < l'"
  using assms unfolding newRange_def midPoint_def
  by (auto split: if_splits)

lemma sortedIndex_inverted_aux:
  assumes "sortedIndex array v rng = Some i"
  shows "\<forall>low high. rng = Some (low, high) \<longrightarrow> \<not> high < low"
proof (rule sortedIndex.raw_induct
    [where P = "\<lambda>array v rng i. \<forall>low high. rng = Some (low, high) \<longrightarrow> \<not> high < low", OF _ assms])
  fix f :: "'a list \<Rightarrow> 'a option \<Rightarrow> (int \<times> int) option \<Rightarrow> int option"
    and array v rng i
  assume IH: "\<And>array v rng i. f array v rng = Some i \<Longrightarrow>
      \<forall>low high. rng = Some (low, high) \<longrightarrow> \<not> high < low"
    and step: "(case (case rng of None \<Rightarrow> (0, int (length array)) | Some r \<Rightarrow> r) of
        (low, high) \<Rightarrow>
          if low = high then Some low
          else f array v (Some (newRange array v low high))) = Some i"
  show "\<forall>low high. rng = Some (low, high) \<longrightarrow> \<not> high < low"
  proof (intro allI impI notI)
    fix low high assume r: "rng = Some (low, high)" and inv: "high < low"
    obtain l' h' where nr: "newRange array v low high = (l', h')"
      by (cases "newRange array v low high")
    from newRange_inverted [OF inv nr] have inv': "h' < l'" .
    from step r inv nr have "f array v (Some (l', h')) = Some i"
      by (simp split: if_splits)
    from IH [OF this] inv' show False by simp
  qed
qed

lemma sortedIndex_inverted:
  "high < low \<Longrightarrow> sortedIndex array v (Some (low, high)) = None"
  using sortedIndex_inverted_aux [of array v "Some (low, high)"]
  by (cases "sortedIndex array v (Some (low, high))") auto

section \<open>The search for undefined\<close>

text \<open>
  Every comparison with \<^verbatim>\<open>undefined\<close> is false, so the search moves right at every step
  and ends at the upper bound; \<^verbatim>\<open>sortedIndexOf\<close> then reads past the end of the array.
\<close>

lemma newRange_undefined:
  "newRange array None low high = (midPoint low high + 1, high)"
  by (simp add: newRange_def le_elem_def)

lemma sortedIndex_undefined_range:
  "low \<le> high \<Longrightarrow> sortedIndex array None (Some (low, high)) = Some high"
proof (induction "nat (high - low)" arbitrary: low rule: less_induct)
  case less
  show ?case
  proof (cases "low = high")
    case True
    then show ?thesis by (simp add: sortedIndex_done)
  next
    case False
    with less.prems have lt: "low < high" by simp
    from midPoint_bounds [OF lt]
    have m: "midPoint low high + 1 \<le> high"
      "nat (high - (midPoint low high + 1)) < nat (high - low)"
      by simp_all
    from less.hyps [OF m(2) m(1)] show ?thesis
      by (simp add: sortedIndex_step [OF False] newRange_undefined)
  qed
qed

lemma sortedIndex_undefined:
  "sortedIndex array None None = Some (int (length array))"
  by (simp add: sortedIndex_top sortedIndex_undefined_range)

lemma sortedIndexOf_undefined:
  "sortedIndexOf array None = Some (int (length array))"
  by (simp add: sortedIndexOf_def sortedIndex_undefined at_index_def)

section \<open>The search on a sorted array\<close>

lemma newRange_keeps_bounds:
  assumes srt: "sorted array"
    and rng: "0 \<le> low" "low < high" "high \<le> int (length array)"
    and inv: "less_before array v low" "ge_from array v high"
    and nr: "newRange array (Some v) low high = (l', h')"
  shows "less_before array v l' \<and> ge_from array v h'"
proof -
  let ?m = "midPoint low high"
  from midPoint_bounds [OF rng(2)] rng
  have m: "0 \<le> ?m" "?m < int (length array)" by simp_all
  then have rd: "at_index array ?m = Some (array ! nat ?m)"
    by (rule at_index_inside)
  show ?thesis
  proof (cases "v \<le> array ! nat ?m")
    case True
    with rd nr have eq: "l' = low" "h' = ?m"
      by (auto simp add: newRange_def le_elem_def)
    have "ge_from array v ?m"
      unfolding ge_from_def
    proof (intro allI impI)
      fix j assume j: "j < length array" "?m \<le> int j"
      with m have "nat ?m \<le> j" by simp
      with srt j have "array ! nat ?m \<le> array ! j"
        by (simp add: sorted_nth_mono)
      with True show "v \<le> array ! j" by simp
    qed
    with inv eq show ?thesis by simp
  next
    case False
    with rd nr have eq: "l' = ?m + 1" "h' = high"
      by (auto simp add: newRange_def le_elem_def)
    have "less_before array v (?m + 1)"
      unfolding less_before_def
    proof (intro allI impI)
      fix j assume j: "j < length array" "int j < ?m + 1"
      with m have "j \<le> nat ?m" "nat ?m < length array" by simp_all
      with srt have "array ! j \<le> array ! nat ?m"
        by (simp add: sorted_nth_mono)
      with False show "array ! j < v" by simp
    qed
    with inv eq show ?thesis by simp
  qed
qed

lemma sortedIndex_sorted_range:
  assumes "sorted array"
  shows "0 \<le> low \<Longrightarrow> low \<le> high \<Longrightarrow> high \<le> int (length array) \<Longrightarrow>
    less_before array v low \<Longrightarrow> ge_from array v high \<Longrightarrow>
    \<exists>i. sortedIndex array (Some v) (Some (low, high)) = Some i \<and> low \<le> i \<and> i \<le> high \<and>
        less_before array v i \<and> ge_from array v i"
proof (induction "nat (high - low)" arbitrary: low high rule: less_induct)
  case less
  show ?case
  proof (cases "low = high")
    case True
    with less.prems show ?thesis by (simp add: sortedIndex_done)
  next
    case False
    with less.prems have lt: "low < high" by simp
    obtain l' h' where nr: "newRange array (Some v) low high = (l', h')"
      by (cases "newRange array (Some v) low high")
    from newRange_shrinks [OF lt nr]
    have b: "low \<le> l'" "l' \<le> h'" "h' \<le> high" "h' - l' \<le> (high - low) div 2"
      by simp_all
    from newRange_keeps_bounds [OF assms less.prems(1) lt less.prems(3,4,5) nr]
    have inv: "less_before array v l'" "ge_from array v h'" by simp_all
    from b lt have dec: "nat (h' - l') < nat (high - low)" by linarith
    from b less.prems have r: "0 \<le> l'" "h' \<le> int (length array)" by simp_all
    from less.hyps [OF dec r(1) b(2) r(2) inv]
    obtain i where "sortedIndex array (Some v) (Some (l', h')) = Some i" "l' \<le> i" "i \<le> h'"
      "less_before array v i" "ge_from array v i"
      by blast
    with b show ?thesis
      using sortedIndex_step [OF False, of array "Some v"] nr by auto
  qed
qed

lemma sortedIndex_sorted:
  assumes "sorted array"
  shows "\<exists>i. sortedIndex array (Some v) None = Some i \<and> 0 \<le> i \<and> i \<le> int (length array) \<and>
        less_before array v i \<and> ge_from array v i"
proof -
  have lo: "less_before array v 0" and hi: "ge_from array v (int (length array))"
    by (simp_all add: less_before_def ge_from_def)
  have "(0::int) \<le> 0" "0 \<le> int (length array)" "int (length array) \<le> int (length array)"
    by simp_all
  from sortedIndex_sorted_range [OF assms this lo hi]
  show ?thesis by (simp add: sortedIndex_top)
qed

text \<open>
  On a sorted array that holds \<open>v\<close>, the position that separates the elements less_before \<open>v\<close>
  from the others is the first position that holds \<open>v\<close>.
\<close>

lemma separation_is_first_occurrence:
  assumes srt: "sorted array" and mem: "v \<in> set array"
    and i: "0 \<le> i" "less_before array v i" "ge_from array v i"
  shows "i < int (length array) \<and> array ! nat i = v \<and> (\<forall>j<nat i. array ! j \<noteq> v)"
proof -
  from mem obtain k where k: "k < length array" "array ! k = v"
    by (auto simp: in_set_conv_nth)
  have ik: "i \<le> int k"
  proof (rule ccontr)
    assume "\<not> i \<le> int k"
    then have "int k < i" by simp
    with k(1) i(2) have "array ! k < v" unfolding less_before_def by blast
    with k show False by simp
  qed
  with k i(1) have lt: "i < int (length array)" "nat i < length array" "nat i \<le> k"
    by simp_all
  from i(1) have "i \<le> int (nat i)" by simp
  with i(3) lt(2) have "v \<le> array ! nat i" unfolding ge_from_def by blast
  moreover from srt lt k have "array ! nat i \<le> v"
    using sorted_nth_mono [of array "nat i" k] by simp
  ultimately have eq: "array ! nat i = v" by simp
  have "\<forall>j<nat i. array ! j \<noteq> v"
  proof (intro allI impI)
    fix j assume "j < nat i"
    with lt have "j < length array" "int j < i" by simp_all
    with i(2) have "array ! j < v" unfolding less_before_def by blast
    then show "array ! j \<noteq> v" by simp
  qed
  with lt eq show ?thesis by simp
qed

lemma at_index_absent: "v \<notin> set array \<Longrightarrow> at_index array i \<noteq> Some v"
  by (auto simp: at_index_def)

section \<open>Counting the invocations\<close>

lemma sortedIndex_fuel_sound:
  "sortedIndex_fuel n array v rng = Some i \<Longrightarrow> sortedIndex array v rng = Some i"
proof (induction n arbitrary: rng)
  case 0
  then show ?case by simp
next
  case (Suc n)
  obtain low high
    where r: "(case rng of None \<Rightarrow> (0, int (length array)) | Some r \<Rightarrow> r) = (low, high)"
    by (cases "case rng of None \<Rightarrow> (0, int (length array)) | Some r \<Rightarrow> r")
  show ?case
  proof (cases "low = high")
    case True
    with Suc.prems r show ?thesis
      by (subst sortedIndex.simps) simp
  next
    case False
    with Suc.prems r
    have "sortedIndex_fuel n array v (Some (newRange array v low high)) = Some i"
      by simp
    from Suc.IH [OF this] False r show ?thesis
      by (subst sortedIndex.simps) simp
  qed
qed

lemma sortedIndex_fuel_enough:
  "low \<le> high \<Longrightarrow> high - low < 2 ^ k \<Longrightarrow>
   \<exists>i. sortedIndex_fuel (Suc k) array v (Some (low, high)) = Some i"
proof (induction k arbitrary: low high)
  case 0
  then have "low = high" by simp
  then show ?case by simp
next
  case (Suc k)
  show ?case
  proof (cases "low = high")
    case True
    then show ?thesis by simp
  next
    case False
    with Suc.prems have lt: "low < high" by simp
    obtain l' h' where nr: "newRange array v low high = (l', h')"
      by (cases "newRange array v low high")
    from newRange_shrinks [OF lt nr]
    have b: "l' \<le> h'" "h' - l' \<le> (high - low) div 2" by simp_all
    from Suc.prems(2) have "(high - low) div 2 < 2 ^ k" by simp
    with b have "h' - l' < 2 ^ k" by simp
    from Suc.IH [OF b(1) this] obtain i
      where "sortedIndex_fuel (Suc k) array v (Some (l', h')) = Some i" by blast
    with False nr show ?thesis by simp
  qed
qed

lemma sortedIndex_fuel_logarithmic:
  assumes "length array < 2 ^ k"
  shows "\<exists>i. sortedIndex_fuel (Suc k) array v None = Some i"
proof -
  from assms have "int (length array) < 2 ^ k"
    by (metis of_nat_less_iff of_nat_numeral of_nat_power)
  then have "int (length array) - 0 < 2 ^ k" by simp
  from sortedIndex_fuel_enough [OF _ this, of array v] show ?thesis by simp
qed

section \<open>The ranges of the invocations\<close>

lemma invoked_invariant:
  "invoked array v r \<Longrightarrow> 0 \<le> fst r \<and> fst r \<le> snd r \<and> snd r \<le> int (length array)"
proof (induction rule: invoked.induct)
  case top
  show ?case by simp
next
  case (recursive low high)
  then have lt: "low < high" by simp
  obtain l' h' where nr: "newRange array v low high = (l', h')"
    by (cases "newRange array v low high")
  from newRange_shrinks [OF lt nr] recursive.IH nr show ?case by simp
qed

lemma invoked_same_result:
  "invoked array v r \<Longrightarrow> sortedIndex array v (Some r) = sortedIndex array v None"
proof (induction rule: invoked.induct)
  case top
  show ?case by (simp add: sortedIndex_top)
next
  case (recursive low high)
  then show ?case by (simp add: sortedIndex_step)
qed

section \<open>The store model computes what the store-free model computes\<close>

lemma deref_append: "deref s r = Some a \<Longrightarrow> deref (s @ ys) r = Some a"
  by (auto simp: deref_def nth_append split: if_splits)

lemma deref_alloc: "deref (s @ [a]) (length s) = Some a"
  by (simp add: deref_def)

lemma sortedIndex_st_done:
  assumes "deref s r = Some [low, low]"
  shows "sortedIndex_st s array v (Some r) = Some (Some low, s)"
  using assms by (subst sortedIndex_st.simps) (simp add: at_index_def)

lemma sortedIndex_st_step:
  assumes "deref s array = Some elems" and "deref s r = Some [low, high]" and "low \<noteq> high"
    and "newRange elems v low high = (l', h')"
  shows "sortedIndex_st s array v (Some r) =
    sortedIndex_st (s @ [[l', h']]) array v (Some (length s))"
  using assms by (subst sortedIndex_st.simps) (simp add: at_index_def alloc_def)

lemma sortedIndex_st_top:
  assumes "deref s array = Some elems"
  shows "sortedIndex_st s array v None =
    sortedIndex_st (s @ [[0, int (length elems)]]) array v (Some (length s))"
  using assms deref_append [OF assms, of "[[0, int (length elems)]]"]
  by (subst sortedIndex_st.simps, subst (2) sortedIndex_st.simps)
    (simp add: alloc_def deref_alloc)

lemma sortedIndex_st_range:
  "deref s array = Some elems \<Longrightarrow> deref s r = Some [low, high] \<Longrightarrow> low \<le> high \<Longrightarrow>
   \<exists>i ys. sortedIndex elems v (Some (low, high)) = Some i \<and>
     sortedIndex_st s array v (Some r) = Some (Some i, s @ ys)"
proof (induction "nat (high - low)" arbitrary: s r low high rule: less_induct)
  case less
  show ?case
  proof (cases "low = high")
    case True
    with less.prems sortedIndex_st_done [of s r low array v]
    have "sortedIndex_st s array v (Some r) = Some (Some low, s @ [])" by simp
    with True show ?thesis using sortedIndex_done [of elems v low] by blast
  next
    case False
    with less.prems have lt: "low < high" by simp
    obtain l' h' where nr: "newRange elems v low high = (l', h')"
      by (cases "newRange elems v low high")
    from newRange_shrinks [OF lt nr]
    have b: "l' \<le> h'" "h' - l' \<le> (high - low) div 2" by simp_all
    from b lt have dec: "nat (h' - l') < nat (high - low)" by linarith
    let ?s = "s @ [[l', h']]"
    have d: "deref ?s array = Some elems" "deref ?s (length s) = Some [l', h']"
      using less.prems(1) by (simp_all add: deref_append deref_alloc)
    from less.hyps [OF dec d b(1)]
    obtain i ys where i: "sortedIndex elems v (Some (l', h')) = Some i"
      "sortedIndex_st ?s array v (Some (length s)) = Some (Some i, ?s @ ys)"
      by blast
    from i(1) nr have "sortedIndex elems v (Some (low, high)) = Some i"
      by (simp add: sortedIndex_step [OF False])
    moreover from i(2)
    have "sortedIndex_st s array v (Some r) = Some (Some i, s @ ([l', h'] # ys))"
      by (simp add: sortedIndex_st_step [OF less.prems(1,2) False nr])
    ultimately show ?thesis by blast
  qed
qed

lemma sortedIndex_st_refines:
  assumes "deref s array = Some elems"
  shows "\<exists>i ys. sortedIndex elems v None = Some i \<and>
     sortedIndex_st s array v None = Some (Some i, s @ ys)"
proof -
  let ?s = "s @ [[0, int (length elems)]]"
  have d: "deref ?s array = Some elems" "deref ?s (length s) = Some [0, int (length elems)]"
    using assms by (simp_all add: deref_append deref_alloc)
  have "(0::int) \<le> int (length elems)" by simp
  from sortedIndex_st_range [OF d this, of v]
  obtain i ys where i: "sortedIndex elems v (Some (0, int (length elems))) = Some i"
    "sortedIndex_st ?s array v (Some (length s)) = Some (Some i, ?s @ ys)"
    by blast
  from i(1) have "sortedIndex elems v None = Some i" by (simp add: sortedIndex_top)
  moreover from i(2) have "sortedIndex_st s array v None =
      Some (Some i, s @ ([0, int (length elems)] # ys))"
    by (simp add: sortedIndex_st_top [OF assms])
  ultimately show ?thesis by blast
qed

lemma sortedIndexOf_st_refines:
  assumes "deref s array = Some elems"
  shows "\<exists>r ys. sortedIndexOf elems v = Some r \<and>
     sortedIndexOf_st s array v = Some (Some r, s @ ys)"
proof -
  from sortedIndex_st_refines [OF assms, of v]
  obtain i ys where i: "sortedIndex elems v None = Some i"
    "sortedIndex_st s array v None = Some (Some i, s @ ys)"
    by blast
  from assms have "deref (s @ ys) array = Some elems" by (rule deref_append)
  with i show ?thesis
    by (auto simp: sortedIndexOf_def sortedIndexOf_st_def read_elem_def)
qed

section \<open>Verified properties\<close>

lemmas eval_defs =
  sortedIndex.simps sortedIndexOf_def newRange_def midPoint_def le_elem_def at_index_def

lemmas eval_store_defs =
  sortedIndex_st.simps sortedIndexOf_st_def alloc_def deref_def read_elem_def

text \<open>
  C1. On an array sorted ascending, \<^verbatim>\<open>sortedIndex(array, value)\<close>, called without a
  range, returns an index \<open>i\<close> with \<open>0 \<le> i \<le> length\<close> such that every element at a position
  before \<open>i\<close> is strictly less than the value and every element at position \<open>i\<close> or after is
  greater than or equal to it.
\<close>

theorem lowerBound_partitions_sorted:
  assumes "sorted array"
  shows "\<exists>i. sortedIndex array (Some v) None = Some i \<and> 0 \<le> i \<and> i \<le> int (length array) \<and>
    (\<forall>j<length array. int j < i \<longrightarrow> array ! j < v) \<and>
    (\<forall>j<length array. i \<le> int j \<longrightarrow> v \<le> array ! j)"
  using sortedIndex_sorted [OF assms, of v] by (simp add: less_before_def ge_from_def)

theorem lowerBound_partitions_sorted_witness:
  "sorted [10, 20, 30, 30, 40 :: int] \<and>
   sortedIndex [10, 20, 30, 30, 40 :: int] (Some 25) None = Some 2 \<and>
   [10, 20, 30, 30, 40 :: int] ! 0 < 25 \<and>
   [10, 20, 30, 30, 40 :: int] ! 1 < 25 \<and>
   25 \<le> [10, 20, 30, 30, 40 :: int] ! 2 \<and>
   25 \<le> [10, 20, 30, 30, 40 :: int] ! 3 \<and>
   25 \<le> [10, 20, 30, 30, 40 :: int] ! 4"
proof -
  have s: "sorted [10, 20, 30, 30, 40 :: int]" by simp
  have e: "sortedIndex [10, 20, 30, 30, 40 :: int] (Some 25) None = Some 2"
    by (simp add: eval_defs)
  from lowerBound_partitions_sorted [OF s, of 25] s e show ?thesis
    by simp
qed

text \<open>
  C2. On an array sorted ascending and for every value that is an element (not
  \<^verbatim>\<open>undefined\<close>), \<^verbatim>\<open>sortedIndexOf(array, value)\<close> returns the index \<open>i\<close> that
  \<^verbatim>\<open>sortedIndex\<close> returns when the element at \<open>i\<close> equals the value, and \<open>-1\<close> otherwise.
  So it returns \<open>-1\<close> when the value does not occur in the array, and the index of the
  first occurrence when it does: a position that holds the value, with no position before
  it that holds it.
\<close>

theorem indexOf_first_occurrence_or_sentinel:
  assumes "sorted array"
  shows "\<exists>i r. sortedIndex array (Some v) None = Some i \<and> sortedIndexOf array (Some v) = Some r \<and>
    (at_index array i = Some v \<longrightarrow> r = i) \<and>
    (at_index array i \<noteq> Some v \<longrightarrow> r = - 1) \<and>
    (v \<notin> set array \<longrightarrow> r = - 1) \<and>
    (v \<in> set array \<longrightarrow>
       0 \<le> r \<and> r < int (length array) \<and> array ! nat r = v \<and> (\<forall>j<nat r. array ! j \<noteq> v))"
proof -
  from sortedIndex_sorted [OF assms, of v]
  obtain i where i: "sortedIndex array (Some v) None = Some i" "0 \<le> i" "less_before array v i"
    "ge_from array v i"
    by blast
  let ?r = "if at_index array i = Some v then i else - 1"
  have r: "sortedIndexOf array (Some v) = Some ?r"
    by (simp add: sortedIndexOf_def i(1))
  have absent: "v \<notin> set array \<longrightarrow> ?r = - 1"
    using at_index_absent [of v array i] by simp
  have present: "v \<in> set array \<longrightarrow>
       0 \<le> ?r \<and> ?r < int (length array) \<and> array ! nat ?r = v \<and> (\<forall>j<nat ?r. array ! j \<noteq> v)"
  proof
    assume "v \<in> set array"
    from separation_is_first_occurrence [OF assms this i(2,3,4)]
    have f: "i < int (length array)" "array ! nat i = v" "\<forall>j<nat i. array ! j \<noteq> v"
      by simp_all
    with i(2) have "at_index array i = Some v" by (simp add: at_index_def)
    with f i(2) show "0 \<le> ?r \<and> ?r < int (length array) \<and> array ! nat ?r = v \<and>
        (\<forall>j<nat ?r. array ! j \<noteq> v)"
      by simp
  qed
  from i(1) r absent present show ?thesis by auto
qed

theorem indexOf_first_occurrence_or_sentinel_witness:
  "sorted [10, 20, 30, 30, 40 :: int] \<and>
   (30::int) \<in> set [10, 20, 30, 30, 40] \<and>
   at_index [10, 20, 30, 30, 40 :: int] 2 = Some 30 \<and>
   sortedIndex [10, 20, 30, 30, 40 :: int] (Some 30) None = Some 2 \<and>
   sortedIndexOf [10, 20, 30, 30, 40 :: int] (Some 30) = Some 2 \<and>
   (35::int) \<notin> set [10, 20, 30, 30, 40] \<and>
   at_index [10, 20, 30, 30, 40 :: int] 4 \<noteq> Some 35 \<and>
   sortedIndex [10, 20, 30, 30, 40 :: int] (Some 35) None = Some 4 \<and>
   sortedIndexOf [10, 20, 30, 30, 40 :: int] (Some 35) = Some (- 1)"
proof -
  have s: "sorted [10, 20, 30, 30, 40 :: int]" by simp
  have e: "sortedIndex [10, 20, 30, 30, 40 :: int] (Some 30) None = Some 2"
    "sortedIndex [10, 20, 30, 30, 40 :: int] (Some 35) None = Some 4"
    by (simp_all add: eval_defs)
  from indexOf_first_occurrence_or_sentinel [OF s, of 30]
    indexOf_first_occurrence_or_sentinel [OF s, of 35] s e
  show ?thesis
    by (auto simp: at_index_def)
qed

text \<open>
  For the value \<^verbatim>\<open>undefined\<close>, which occurs in no array, the function does not return
  \<open>-1\<close>: on \<open>[1, 2, 3]\<close> the search ends at the length of the array, the read there is
  \<^verbatim>\<open>undefined\<close>, the test \<^verbatim>\<open>===\<close> succeeds and the result is \<open>3\<close>.
\<close>

theorem indexOf_undefined_counterexample:
  "sorted [1, 2, 3 :: int] \<and>
   None \<notin> set (map Some [1, 2, 3 :: int]) \<and>
   sortedIndex [1, 2, 3 :: int] None None = Some 3 \<and>
   at_index [1, 2, 3 :: int] 3 = None \<and>
   sortedIndexOf [1, 2, 3 :: int] None = Some 3 \<and>
   sortedIndexOf [1, 2, 3 :: int] None \<noteq> Some (- 1)"
  by (simp add: eval_defs)

text \<open>
  C3. On an array sorted ascending that holds the value at least once,
  \<^verbatim>\<open>sortedIndex(array, value)\<close> returns the index of its first occurrence: the position
  holds the value and no position before it does.
\<close>

theorem lowerBound_first_occurrence:
  assumes "sorted array" and "v \<in> set array"
  shows "\<exists>i. sortedIndex array (Some v) None = Some i \<and> 0 \<le> i \<and> i < int (length array) \<and>
    array ! nat i = v \<and> (\<forall>j<nat i. array ! j \<noteq> v)"
proof -
  from sortedIndex_sorted [OF assms(1), of v]
  obtain i where i: "sortedIndex array (Some v) None = Some i" "0 \<le> i" "less_before array v i"
    "ge_from array v i"
    by blast
  from separation_is_first_occurrence [OF assms i(2,3,4)] i(1,2)
  show ?thesis by simp
qed

theorem lowerBound_first_occurrence_witness:
  "sorted [10, 20, 30, 30, 40 :: int] \<and> (30::int) \<in> set [10, 20, 30, 30, 40] \<and>
   sortedIndex [10, 20, 30, 30, 40 :: int] (Some 30) None = Some 2 \<and>
   [10, 20, 30, 30, 40 :: int] ! nat 2 = 30 \<and>
   [10, 20, 30, 30, 40 :: int] ! 0 \<noteq> 30 \<and>
   [10, 20, 30, 30, 40 :: int] ! 1 \<noteq> 30"
proof -
  have s: "sorted [10, 20, 30, 30, 40 :: int]" by simp
  have m: "(30::int) \<in> set [10, 20, 30, 30, 40]" by simp
  have e: "sortedIndex [10, 20, 30, 30, 40 :: int] (Some 30) None = Some 2"
    by (simp add: eval_defs)
  from lowerBound_first_occurrence [OF s m] s m e show ?thesis
    by simp
qed

text \<open>
  C4. For every array and every value, \<^verbatim>\<open>undefined\<close> included, the top-level call returns, and when
  \<open>length array < 2 ^ k\<close> it does so within \<open>k + 1\<close> invocations, so the number of
  invocations is logarithmic in the length. At each step with \<open>low < high\<close> the new range
  is \<open>[low, midPoint]\<close> or \<open>[midPoint + 1, high]\<close>, lies inside the old one and is
  strictly shorter (at most half as long). The recursion is a tail call: the result of an
  invocation with \<open>low \<noteq> high\<close> is the result of the invocation on the new range.
\<close>

theorem recursion_terminates_logarithmic:
  "(\<exists>i. sortedIndex array v None = Some i \<and>
      (length array < 2 ^ k \<longrightarrow> sortedIndex_fuel (Suc k) array v None = Some i)) \<and>
   (low < high \<longrightarrow>
      (newRange array v low high = (low, midPoint low high) \<or>
       newRange array v low high = (midPoint low high + 1, high)) \<and>
      low \<le> fst (newRange array v low high) \<and>
      fst (newRange array v low high) \<le> snd (newRange array v low high) \<and>
      snd (newRange array v low high) \<le> high \<and>
      snd (newRange array v low high) - fst (newRange array v low high) < high - low \<and>
      snd (newRange array v low high) - fst (newRange array v low high) \<le> (high - low) div 2) \<and>
   (low \<noteq> high \<longrightarrow>
      sortedIndex array v (Some (low, high)) =
      sortedIndex array v (Some (newRange array v low high)))"
proof (intro conjI impI)
  from sortedIndex_in_range [of array v]
  obtain i where i: "sortedIndex array v None = Some i" by blast
  have "length array < 2 ^ k \<longrightarrow> sortedIndex_fuel (Suc k) array v None = Some i"
  proof
    assume "length array < 2 ^ k"
    from sortedIndex_fuel_logarithmic [OF this, of v]
    obtain j where j: "sortedIndex_fuel (Suc k) array v None = Some j" by blast
    from sortedIndex_fuel_sound [OF j] i have "j = i" by simp
    with j show "sortedIndex_fuel (Suc k) array v None = Some i" by simp
  qed
  with i show "\<exists>i. sortedIndex array v None = Some i \<and>
      (length array < 2 ^ k \<longrightarrow> sortedIndex_fuel (Suc k) array v None = Some i)"
    by blast
next
  assume lt: "low < high"
  obtain l' h' where nr: "newRange array v low high = (l', h')"
    by (cases "newRange array v low high")
  from newRange_shrinks [OF lt nr]
  have b: "low \<le> l'" "l' \<le> h'" "h' \<le> high" "h' - l' \<le> (high - low) div 2"
    by simp_all
  from b(4) lt have "h' - l' < high - low" by linarith
  with b nr
  show "low \<le> fst (newRange array v low high)"
    "fst (newRange array v low high) \<le> snd (newRange array v low high)"
    "snd (newRange array v low high) \<le> high"
    "snd (newRange array v low high) - fst (newRange array v low high) < high - low"
    "snd (newRange array v low high) - fst (newRange array v low high) \<le> (high - low) div 2"
    by simp_all
  show "newRange array v low high = (low, midPoint low high) \<or>
       newRange array v low high = (midPoint low high + 1, high)"
    by (simp add: newRange_def)
next
  assume "low \<noteq> high"
  then show "sortedIndex array v (Some (low, high)) =
      sortedIndex array v (Some (newRange array v low high))"
    by (rule sortedIndex_step)
qed

theorem recursion_terminates_logarithmic_witness:
  "length [10, 20, 30, 30, 40 :: int] < 2 ^ 3 \<and> (0::int) < 5 \<and> (0::int) \<noteq> 5 \<and>
   sortedIndex [10, 20, 30, 30, 40 :: int] (Some 30) None = Some 2 \<and>
   sortedIndex_fuel (Suc 3) [10, 20, 30, 30, 40 :: int] (Some 30) None = Some 2 \<and>
   newRange [10, 20, 30, 30, 40 :: int] (Some 30) 0 5 = (0, 2) \<and> (2::int) - 0 < 5 - 0 \<and>
   sortedIndex [10, 20, 30, 30, 40 :: int] (Some 30) (Some (0, 5)) =
   sortedIndex [10, 20, 30, 30, 40 :: int] (Some 30) (Some (0, 2))"
proof -
  have e: "sortedIndex [10, 20, 30, 30, 40 :: int] (Some 30) None = Some 2"
    "newRange [10, 20, 30, 30, 40 :: int] (Some 30) 0 5 = (0, 2)"
    by (simp_all add: eval_defs)
  from recursion_terminates_logarithmic [of "[10, 20, 30, 30, 40 :: int]" "Some 30" 3 0 5] e
  show ?thesis by simp
qed

text \<open>
  C5. For every array, sorted or not, and every value, \<^verbatim>\<open>undefined\<close> included, the
  top-level call returns an index between \<open>0\<close> and the length of the array, both
  included.
\<close>

theorem lowerBound_in_range_unsorted:
  "\<exists>i. sortedIndex array v None = Some i \<and> 0 \<le> i \<and> i \<le> int (length array)"
  by (rule sortedIndex_in_range)

text \<open>
  C6. On the empty array \<^verbatim>\<open>sortedIndex\<close> returns \<open>0\<close> for every value, \<^verbatim>\<open>undefined\<close>
  included, and \<^verbatim>\<open>sortedIndexOf\<close> returns \<open>-1\<close> for every value that is an element.
\<close>

theorem empty_sequence:
  "sortedIndex [] w None = Some 0 \<and> sortedIndexOf [] (Some v) = Some (- 1)"
  by (simp add: eval_defs)

text \<open>
  For the value \<^verbatim>\<open>undefined\<close> the result on the empty array is \<open>0\<close>: the read at index
  \<open>0\<close> is \<^verbatim>\<open>undefined\<close> and the test \<^verbatim>\<open>===\<close> succeeds.
\<close>

theorem empty_indexOf_undefined_counterexample:
  "sortedIndexOf ([] :: int list) None = Some 0 \<and>
   sortedIndexOf ([] :: int list) None \<noteq> Some (- 1)"
  by (simp add: eval_defs)

text \<open>
  C7. The six scenarios on the array \<open>[10, 20, 30, 30, 40]\<close>.
\<close>

theorem concrete_scenarios:
  "sortedIndex [10, 20, 30, 30, 40 :: int] (Some 30) None = Some 2 \<and>
   sortedIndex [10, 20, 30, 30, 40 :: int] (Some 25) None = Some 2 \<and>
   sortedIndex [10, 20, 30, 30, 40 :: int] (Some 5) None = Some 0 \<and>
   sortedIndex [10, 20, 30, 30, 40 :: int] (Some 50) None = Some 5 \<and>
   sortedIndexOf [10, 20, 30, 30, 40 :: int] (Some 30) = Some 2 \<and>
   sortedIndexOf [10, 20, 30, 30, 40 :: int] (Some 35) = Some (- 1)"
  by (simp add: eval_defs)

text \<open>
  C8. In the store model a call of either function returns, and the store after the call
  is the store before it with new objects appended: every object that existed before the
  call, the input array among them, is unchanged. A second call with the same arguments,
  made in the store the first one left, returns the same value. The value is the one that
  the store-free functions compute from the contents of the array and the value alone.
\<close>

theorem calls_leave_store_objects_unchanged:
  assumes "deref s array = Some elems"
  shows "\<exists>i r ys ys' zs zs'.
    sortedIndex_st s array v None = Some (Some i, s @ ys) \<and>
    sortedIndex_st (s @ ys) array v None = Some (Some i, s @ ys @ ys') \<and>
    deref (s @ ys) array = Some elems \<and>
    sortedIndex elems v None = Some i \<and>
    sortedIndexOf_st s array v = Some (Some r, s @ zs) \<and>
    sortedIndexOf_st (s @ zs) array v = Some (Some r, s @ zs @ zs') \<and>
    deref (s @ zs) array = Some elems \<and>
    sortedIndexOf elems v = Some r"
proof -
  from sortedIndex_st_refines [OF assms, of v]
  obtain i ys where i: "sortedIndex elems v None = Some i"
    "sortedIndex_st s array v None = Some (Some i, s @ ys)"
    by blast
  have d1: "deref (s @ ys) array = Some elems" using assms by (rule deref_append)
  from sortedIndex_st_refines [OF d1, of v] i(1)
  obtain ys' where i': "sortedIndex_st (s @ ys) array v None = Some (Some i, s @ ys @ ys')"
    by auto
  from sortedIndexOf_st_refines [OF assms, of v]
  obtain r zs where r: "sortedIndexOf elems v = Some r"
    "sortedIndexOf_st s array v = Some (Some r, s @ zs)"
    by blast
  have d2: "deref (s @ zs) array = Some elems" using assms by (rule deref_append)
  from sortedIndexOf_st_refines [OF d2, of v] r(1)
  obtain zs' where r': "sortedIndexOf_st (s @ zs) array v = Some (Some r, s @ zs @ zs')"
    by auto
  from i i' d1 r r' d2 show ?thesis by blast
qed

theorem calls_leave_store_objects_unchanged_witness:
  "deref [[10, 20, 30, 30, 40]] 0 = Some [10, 20, 30, 30, 40] \<and>
   sortedIndex_st [[10, 20, 30, 30, 40]] 0 (Some 30) None =
     Some (Some 2, [[10, 20, 30, 30, 40]] @ [[0, 5], [0, 2], [2, 2]]) \<and>
   sortedIndex_st ([[10, 20, 30, 30, 40]] @ [[0, 5], [0, 2], [2, 2]]) 0 (Some 30) None =
     Some (Some 2, [[10, 20, 30, 30, 40]] @ [[0, 5], [0, 2], [2, 2]] @ [[0, 5], [0, 2], [2, 2]]) \<and>
   sortedIndexOf_st [[10, 20, 30, 30, 40]] 0 (Some 30) =
     Some (Some 2, [[10, 20, 30, 30, 40]] @ [[0, 5], [0, 2], [2, 2]]) \<and>
   sortedIndex [10, 20, 30, 30, 40 :: int] (Some 30) None = Some 2 \<and>
   sortedIndexOf [10, 20, 30, 30, 40 :: int] (Some 30) = Some 2"
proof -
  have d: "deref [[10, 20, 30, 30, 40]] 0 = Some [10, 20, 30, 30, 40]"
    by (simp add: deref_def)
  have e: "sortedIndex_st [[10, 20, 30, 30, 40]] 0 (Some 30) None =
     Some (Some 2, [[10, 20, 30, 30, 40]] @ [[0, 5], [0, 2], [2, 2]])"
    "sortedIndex_st ([[10, 20, 30, 30, 40]] @ [[0, 5], [0, 2], [2, 2]]) 0 (Some 30) None =
     Some (Some 2, [[10, 20, 30, 30, 40]] @ [[0, 5], [0, 2], [2, 2]] @ [[0, 5], [0, 2], [2, 2]])"
    "sortedIndexOf_st [[10, 20, 30, 30, 40]] 0 (Some 30) =
     Some (Some 2, [[10, 20, 30, 30, 40]] @ [[0, 5], [0, 2], [2, 2]])"
    by (simp_all add: eval_defs eval_store_defs)
  from calls_leave_store_objects_unchanged [OF d, of "Some 30"] d e show ?thesis
    by auto
qed

text \<open>
  C9. Every invocation that a top-level call leads to has a range with
  \<open>0 \<le> low \<le> high \<le> length\<close> and returns what the top-level call returns. When
  \<open>low \<noteq> high\<close>, the only case in which the array is read, \<open>low < high\<close> holds, the
  midpoint satisfies \<open>low \<le> midPoint < high\<close> and is a position of the array, and the
  read yields an element, never \<open>None\<close>.
\<close>

theorem invocation_ranges_in_bounds:
  assumes "invoked array v (low, high)"
  shows "0 \<le> low \<and> low \<le> high \<and> high \<le> int (length array) \<and>
    sortedIndex array v (Some (low, high)) = sortedIndex array v None \<and>
    (low \<noteq> high \<longrightarrow>
       low < high \<and> low \<le> midPoint low high \<and> midPoint low high < high \<and>
       0 \<le> midPoint low high \<and> midPoint low high < int (length array) \<and>
       at_index array (midPoint low high) \<noteq> None \<and>
       at_index array (midPoint low high) = Some (array ! nat (midPoint low high)))"
proof -
  from invoked_invariant [OF assms]
  have b: "0 \<le> low" "low \<le> high" "high \<le> int (length array)" by simp_all
  have rd: "low \<noteq> high \<longrightarrow>
       low < high \<and> low \<le> midPoint low high \<and> midPoint low high < high \<and>
       0 \<le> midPoint low high \<and> midPoint low high < int (length array) \<and>
       at_index array (midPoint low high) \<noteq> None \<and>
       at_index array (midPoint low high) = Some (array ! nat (midPoint low high))"
  proof
    assume "low \<noteq> high"
    with b have lt: "low < high" by simp
    from midPoint_bounds [OF lt] b
    have m: "low \<le> midPoint low high" "midPoint low high < high"
      "0 \<le> midPoint low high" "midPoint low high < int (length array)"
      by simp_all
    from at_index_inside [OF m(3,4)] lt m
    show "low < high \<and> low \<le> midPoint low high \<and> midPoint low high < high \<and>
       0 \<le> midPoint low high \<and> midPoint low high < int (length array) \<and>
       at_index array (midPoint low high) \<noteq> None \<and>
       at_index array (midPoint low high) = Some (array ! nat (midPoint low high))"
      by simp
  qed
  from b invoked_same_result [OF assms] rd show ?thesis by simp
qed

theorem invocation_ranges_in_bounds_witness:
  "invoked [10, 20, 30, 30, 40 :: int] (Some 25) (0, 2) \<and> (0::int) \<noteq> 2 \<and>
   midPoint 0 2 = 1 \<and>
   at_index [10, 20, 30, 30, 40 :: int] (midPoint 0 2) = Some 20 \<and>
   sortedIndex [10, 20, 30, 30, 40 :: int] (Some 25) (Some (0, 2)) =
   sortedIndex [10, 20, 30, 30, 40 :: int] (Some 25) None"
proof -
  have "invoked [10, 20, 30, 30, 40 :: int] (Some 25)
      (newRange [10, 20, 30, 30, 40 :: int] (Some 25) 0 (int (length [10, 20, 30, 30, 40 :: int])))"
    by (rule invoked.recursive [OF invoked.top]) simp
  then have i: "invoked [10, 20, 30, 30, 40 :: int] (Some 25) (0, 2)"
    by (simp add: eval_defs)
  from invocation_ranges_in_bounds [OF i] i show ?thesis
    by (simp add: midPoint_def at_index_def)
qed

text \<open>
  C10. On an array sorted ascending, \<^verbatim>\<open>sortedIndex\<close> is monotone in the value: for
  \<open>v \<le> w\<close> the index returned for \<open>v\<close> is at most the index returned for \<open>w\<close>.
\<close>

theorem lowerBound_monotone:
  assumes "sorted array" and "v \<le> w"
  shows "\<exists>i j. sortedIndex array (Some v) None = Some i \<and> sortedIndex array (Some w) None = Some j \<and> i \<le> j"
proof -
  from sortedIndex_sorted [OF assms(1), of v]
  obtain i where i: "sortedIndex array (Some v) None = Some i" "0 \<le> i" "i \<le> int (length array)"
    "less_before array v i"
    by blast
  from sortedIndex_sorted [OF assms(1), of w]
  obtain j where j: "sortedIndex array (Some w) None = Some j" "0 \<le> j" "ge_from array w j"
    by blast
  have "i \<le> j"
  proof (rule ccontr)
    assume "\<not> i \<le> j"
    with i j have n: "nat j < length array" "int (nat j) < i" "j \<le> int (nat j)"
      by simp_all
    from i(4) n(1,2) have "array ! nat j < v" unfolding less_before_def by blast
    moreover from j(3) n(1,3) have "w \<le> array ! nat j" unfolding ge_from_def by blast
    ultimately show False using assms(2) by simp
  qed
  with i(1) j(1) show ?thesis by simp
qed

theorem lowerBound_monotone_witness:
  "sorted [10, 20, 30, 30, 40 :: int] \<and> (25::int) \<le> 35 \<and>
   sortedIndex [10, 20, 30, 30, 40 :: int] (Some 25) None = Some 2 \<and>
   sortedIndex [10, 20, 30, 30, 40 :: int] (Some 35) None = Some 4 \<and> (2::int) \<le> 4"
proof -
  have s: "sorted [10, 20, 30, 30, 40 :: int]" and l: "(25::int) \<le> 35" by simp_all
  have e: "sortedIndex [10, 20, 30, 30, 40 :: int] (Some 25) None = Some 2"
    "sortedIndex [10, 20, 30, 30, 40 :: int] (Some 35) None = Some 4"
    by (simp_all add: eval_defs)
  from lowerBound_monotone [OF s l] s e show ?thesis by simp
qed

end
